theory Spec2Isabelle
  imports Main
begin

section \<open>Python values used by \<^verbatim>\<open>examples/19-customize-patch.py\<close>\<close>

text \<open>
  The example defines one class, \<^verbatim>\<open>HitsCountPatch\<close>, with a constructor and the two
  methods \<^verbatim>\<open>forward\<close> and \<^verbatim>\<open>add\<close>. Its state is a dictionary from the labels
  \<^verbatim>\<open>'@1'\<close>, \<^verbatim>\<open>'@2'\<close>, ... to counts. Dictionaries are maps from strings to integers;
  two dictionaries are equal in Python exactly when the maps are equal.
\<close>

type_synonym dict = "string \<rightharpoonup> int"

datatype error =
    KeyError string
  | AttributeError string string
  | IndexError string

subsection \<open>The label of a cutoff\<close>

text \<open>
  The source formats a cutoff \<open>v\<close> as the character \<^verbatim>\<open>@\<close> followed by the decimal numeral
  of \<open>v\<close>, as an f-string does for an integer.
\<close>

definition digit_char :: "nat \<Rightarrow> char" where
  "digit_char d = ''0123456789'' ! d"

function str_nat :: "nat \<Rightarrow> string" where
  "str_nat n = (if n < 10 then [digit_char n] else str_nat (n div 10) @ [digit_char (n mod 10)])"
  by pat_completeness auto
termination
  by (relation "measure id") auto

declare str_nat.simps [simp del]

definition str_int :: "int \<Rightarrow> string" where
  "str_int i = (if i < 0 then CHR ''-'' # str_nat (nat (- i)) else str_nat (nat i))"

definition key_of :: "int \<Rightarrow> string" where
  "key_of v = CHR ''@'' # str_int v"

text \<open>Reading a decimal numeral back, used only to show that formatting is injective.\<close>

definition digit_val :: "char \<Rightarrow> nat" where
  "digit_val c = of_char c - 48"

definition val_nat :: "string \<Rightarrow> nat" where
  "val_nat s = foldl (\<lambda>a c. 10 * a + digit_val c) 0 s"

subsection \<open>Tensors and the library calls on them\<close>

text \<open>
  \<^verbatim>\<open>preds\<close> is a tensor of scores. The constructor is meant for a two-dimensional
  tensor, one row per sample: a list of rows. A one-dimensional tensor is a list of
  scores and a zero-dimensional tensor a single score. Tensors of three and more
  dimensions are not modelled. Scores are only compared, so they are taken from any
  linear order. \<^verbatim>\<open>targets\<close> is a one-dimensional tensor of class labels. Labels and
  sorted column indices are integers.
\<close>

datatype 'a tensor =
    Tensor0 'a
  | Tensor1 "'a list"
  | Tensor2 "'a list list"

text \<open>
  The indices that sort one row by descending score. Equal scores are kept in index
  order here; the library leaves their order open.
\<close>

definition argsort_desc :: "'a::linorder list \<Rightarrow> int list" where
  "argsort_desc row = map int (rev (sort_key (\<lambda>i. row ! i) (rev [0..<length row])))"

definition sort_desc_indices :: "'a::linorder list list \<Rightarrow> int list list" where
  "sort_desc_indices rows = map argsort_desc rows"

text \<open>
  \<^verbatim>\<open>preds.sort(dim=1, descending=True)\<close>, second component: for each row the column
  indices in the order of descending score. A tensor of fewer than two dimensions has no
  dimension 1 and the call raises \<^verbatim>\<open>IndexError\<close>.
\<close>

fun sort_dim1_desc :: "'a::linorder tensor \<Rightarrow> error + int list list" where
  "sort_dim1_desc (Tensor0 x) = Inl (IndexError ''Dimension out of range'')"
| "sort_dim1_desc (Tensor1 xs) = Inl (IndexError ''Dimension out of range'')"
| "sort_dim1_desc (Tensor2 rows) = Inr (sort_desc_indices rows)"

text \<open>The slice \<^verbatim>\<open>xs[:n]\<close>; a negative bound counts from the end.\<close>

definition slice_to :: "int \<Rightarrow> 'b list \<Rightarrow> 'b list" where
  "slice_to n xs = take (nat (if n < 0 then int (length xs) + n else n)) xs"

text \<open>
  \<^verbatim>\<open>np.in1d(ar1, ar2, assume_unique=True)\<close> flattens both arrays and returns one truth
  value per element of \<^verbatim>\<open>ar1\<close>. On integer arrays the library chooses among three ways
  of computing it.

  The first two test plain membership in \<^verbatim>\<open>ar2\<close>: a lookup table, and a loop over the
  elements of \<^verbatim>\<open>ar2\<close>.
\<close>

definition in1d_member :: "int list \<Rightarrow> int list \<Rightarrow> bool list" where
  "in1d_member ar1 ar2 = map (\<lambda>x. x \<in> set ar2) ar1"

text \<open>
  The third sorts. With \<^verbatim>\<open>assume_unique=True\<close> the arrays are not made unique first:
  the concatenation of both arrays is sorted by a stable \<^verbatim>\<open>argsort\<close>, an element of the
  sorted array is flagged when its successor equals it, and the flags are carried back to
  the positions the elements came from. The result is the part for \<^verbatim>\<open>ar1\<close>.
\<close>

definition in1d_sort_path :: "int list \<Rightarrow> int list \<Rightarrow> bool list" where
  "in1d_sort_path ar1 ar2 =
     (let ar = ar1 @ ar2;
          order = sort_key (\<lambda>i. ar ! i) [0..<length ar];
          sar = map (\<lambda>i. ar ! i) order;
          bool_ar = map2 (=) (tl sar) (butlast sar);
          flag = bool_ar @ [False];
          ret = (\<lambda>i. case map_of (zip order flag) i of Some b \<Rightarrow> b | None \<Rightarrow> False)
      in map ret [0..<length ar1])"

text \<open>
  The choice. An empty \<^verbatim>\<open>ar2\<close> gives all false. The table is used when the range of
  \<^verbatim>\<open>ar2\<close> is at most six times the number of elements of both arrays. Otherwise the
  loop is used when \<^verbatim>\<open>len(ar2) < 10 * len(ar1) ** 0.145\<close>; both sides raised to the
  power 200, this is a comparison of integers. Otherwise the arrays are sorted. The
  library's guard against overflow of the range in the arrays' integer type always passes
  for column indices and is left out.
\<close>

definition in1d :: "int list \<Rightarrow> int list \<Rightarrow> bool list" where
  "in1d ar1 ar2 =
     (if ar2 = [] then replicate (length ar1) False
      else if Max (set ar2) - Min (set ar2) \<le> 6 * (int (length ar1) + int (length ar2))
        then in1d_member ar1 ar2
      else if int (length ar2) ^ 200 < 10 ^ 200 * int (length ar1) ^ 29
        then in1d_member ar1 ar2
      else in1d_sort_path ar1 ar2)"

text \<open>\<^verbatim>\<open>hit.sum()\<close> on a boolean array counts its true entries.\<close>

definition np_sum :: "bool list \<Rightarrow> int" where
  "np_sum hit = int (length (filter (\<lambda>b. b) hit))"

section \<open>The class \<^verbatim>\<open>HitsCountPatch\<close>\<close>

record HitsCountPatch =
  name :: "string option"
  at :: "int list"
  hits_count :: dict

text \<open>The dictionary comprehension over \<^verbatim>\<open>at\<close>: every label of a cutoff mapped to \<open>0\<close>.\<close>

definition zero_counts :: "int list \<Rightarrow> dict" where
  "zero_counts ats = map_of (map (\<lambda>v. (key_of v, 0)) ats)"

text \<open>\<^verbatim>\<open>d[k] += v\<close> reads the entry first and raises \<^verbatim>\<open>KeyError\<close> when it is missing.\<close>

definition dict_iadd :: "dict \<Rightarrow> string \<Rightarrow> int \<Rightarrow> error + dict" where
  "dict_iadd d k v = (case d k of None \<Rightarrow> Inl (KeyError k) | Some c \<Rightarrow> Inr (d(k \<mapsto> c + v)))"

text \<open>
  The body of the loop \<^verbatim>\<open>for n in at\<close> computes, for the cutoff \<^verbatim>\<open>n\<close>, the first \<^verbatim>\<open>n\<close>
  columns of the sorted indices of the whole batch, tests the targets against them with
  \<^verbatim>\<open>np.in1d\<close>, and sums the result.
\<close>

definition hit_sum :: "int list list \<Rightarrow> int list \<Rightarrow> int \<Rightarrow> int" where
  "hit_sum ids_sorted tgts_np n =
     (let ids_n = map (slice_to n) ids_sorted;
          hit = in1d tgts_np (concat ids_n)
      in np_sum hit)"

fun count_hits :: "int list list \<Rightarrow> int list \<Rightarrow> int list \<Rightarrow> dict \<Rightarrow> error + dict" where
  "count_hits ids_sorted tgts_np [] hc = Inr hc"
| "count_hits ids_sorted tgts_np (n # ns) hc =
     (case dict_iadd hc (key_of n) (hit_sum ids_sorted tgts_np n) of
        Inl e \<Rightarrow> Inl e
      | Inr hc' \<Rightarrow> count_hits ids_sorted tgts_np ns hc')"

text \<open>
  The constructor \<^verbatim>\<open>__init__(self, preds, targets, at=(1, 2), name=None)\<close>, as a function
  from its arguments to the fields of the new object, or to the error that a library
  call raises on the way.

  Modelled from the spec: the base class \<^verbatim>\<open>PatchBase\<close> and its constructor are not among
  the sources; the accumulator is described with the fields \<^verbatim>\<open>at\<close>, \<^verbatim>\<open>hits_count\<close> and
  \<^verbatim>\<open>name\<close>, so \<^verbatim>\<open>super().__init__(name)\<close> is taken to store the name.
\<close>

definition HitsCountPatch_init ::
  "'a::linorder tensor \<Rightarrow> int list \<Rightarrow> int list \<Rightarrow> string option \<Rightarrow> error + HitsCountPatch" where
  "HitsCountPatch_init preds targets ats nm =
     (let hc0 = zero_counts ats
      in case sort_dim1_desc preds of
           Inl e \<Rightarrow> Inl e
         | Inr ids_sorted \<Rightarrow>
             (let tgts_np = targets
              in case count_hits ids_sorted tgts_np ats hc0 of
                   Inl e \<Rightarrow> Inl e
                 | Inr hc \<Rightarrow> Inr \<lparr>name = nm, at = ats, hits_count = hc\<rparr>))"

text \<open>\<^verbatim>\<open>forward(self)\<close> returns the dictionary held by the receiver.\<close>

definition forward :: "HitsCountPatch \<Rightarrow> dict" where
  "forward self = hits_count self"

text \<open>
  Modelled from the spec: \<^verbatim>\<open>sum_dicts\<close> belongs to the library and is not among the
  sources. The merge is the element-wise integer sum over matching labels of the
  mappings. A label that occurs in some of the mappings only keeps the sum of the counts
  it has.
\<close>

fun sum_dicts :: "dict list \<Rightarrow> dict" where
  "sum_dicts [] = Map.empty"
| "sum_dicts (d # ds) =
     (\<lambda>k. case (d k, sum_dicts ds k) of
             (None, r) \<Rightarrow> r
           | (Some v, None) \<Rightarrow> Some v
           | (Some v, Some w) \<Rightarrow> Some (v + w))"

text \<open>
  The argument of \<^verbatim>\<open>add\<close> is any Python object. All that \<^verbatim>\<open>add\<close> does with it is read
  its attribute \<^verbatim>\<open>hits_count\<close>, so an object is either a \<^verbatim>\<open>HitsCountPatch\<close> or an instance
  of another class, given by the class name and its \<^verbatim>\<open>hits_count\<close> attribute if it has one.

  Modelled from the spec: \<^verbatim>\<open>ValuePatch\<close>, the library's accumulator for mean-like
  metrics, is not among the sources; it is an object of another kind that has no
  \<^verbatim>\<open>hits_count\<close> mapping.
\<close>

datatype pyobj =
    Patch HitsCountPatch
  | Instance string "dict option"


fun getattr_hits_count :: "pyobj \<Rightarrow> error + dict" where
  "getattr_hits_count (Patch p) = Inr (hits_count p)"
| "getattr_hits_count (Instance c None) = Inl (AttributeError c ''hits_count'')"
| "getattr_hits_count (Instance c (Some d)) = Inr d"

text \<open>
  \<^verbatim>\<open>add(self, obj)\<close> assigns the sum to the receiver's field and returns the receiver:
  the result is the receiver with the new field.
\<close>

definition add :: "HitsCountPatch \<Rightarrow> pyobj \<Rightarrow> error + HitsCountPatch" where
  "add self obj =
     (case getattr_hits_count obj of
        Inl e \<Rightarrow> Inl e
      | Inr d \<Rightarrow> Inr (self\<lparr>hits_count := sum_dicts [hits_count self, d]\<rparr>))"

subsection \<open>Objects in a store\<close>

text \<open>
  Where the identity of objects matters, the instances of \<^verbatim>\<open>HitsCountPatch\<close> live in a
  store, and a method call takes references and returns the store it leaves behind.
\<close>

type_synonym ref = nat
type_synonym store = "ref \<Rightarrow> HitsCountPatch"

definition call_forward :: "ref \<Rightarrow> store \<Rightarrow> dict \<times> store" where
  "call_forward self h = (forward (h self), h)"

definition call_add :: "ref \<Rightarrow> ref \<Rightarrow> store \<Rightarrow> error + (ref \<times> store)" where
  "call_add self obj h =
     (case add (h self) (Patch (h obj)) of
        Inl e \<Rightarrow> Inl e
      | Inr p \<Rightarrow> Inr (self, h(self := p)))"

subsection \<open>The count the specification describes\<close>

text \<open>
  In the words of the specification: the number of samples whose own true label is among
  that sample's top-\<open>n\<close> predicted labels. Sample \<open>i\<close> is row \<open>i\<close> of the sorted indices
  together with target \<open>i\<close>.
\<close>

definition spec_hits :: "int list list \<Rightarrow> int list \<Rightarrow> int \<Rightarrow> int" where
  "spec_hits ids_sorted targets n =
     int (length (filter (\<lambda>(row, t). t \<in> set (slice_to n row)) (zip ids_sorted targets)))"

text \<open>The rank (1-indexed) of a label in a row of sorted indices.\<close>

definition rank_in :: "int list \<Rightarrow> int \<Rightarrow> nat" where
  "rank_in row t = Suc (length (takeWhile (\<lambda>i. i \<noteq> t) row))"

subsection \<open>The invariant of an accumulator\<close>

text \<open>
  The key set of \<^verbatim>\<open>hits_count\<close> is the set of labels of the cutoffs in \<^verbatim>\<open>at\<close>, every
  count is non-negative, and the counts do not decrease with the cutoff.
\<close>

definition keys_ok :: "HitsCountPatch \<Rightarrow> bool" where
  "keys_ok p \<longleftrightarrow> dom (hits_count p) = key_of ` set (at p)"

definition counts_nonneg :: "HitsCountPatch \<Rightarrow> bool" where
  "counts_nonneg p \<longleftrightarrow> (\<forall>k c. hits_count p k = Some c \<longrightarrow> 0 \<le> c)"

definition counts_monotone :: "HitsCountPatch \<Rightarrow> bool" where
  "counts_monotone p \<longleftrightarrow>
     (\<forall>m\<in>set (at p). \<forall>n\<in>set (at p). \<forall>c d.
        m \<le> n \<and> hits_count p (key_of m) = Some c \<and> hits_count p (key_of n) = Some d \<longrightarrow> c \<le> d)"

definition patch_inv :: "HitsCountPatch \<Rightarrow> bool" where
  "patch_inv p \<longleftrightarrow> keys_ok p \<and> counts_nonneg p \<and> counts_monotone p"

text \<open>An accumulator that has seen no hit: every count is zero.\<close>

definition all_zero :: "HitsCountPatch \<Rightarrow> bool" where
  "all_zero p \<longleftrightarrow> (\<forall>k c. hits_count p k = Some c \<longrightarrow> c = 0)"

subsection \<open>Example stores\<close>


subsection \<open>Example input\<close>

text \<open>
  A row of 86 scores: column 0 has the best score, column 85 the second best, columns 1
  to 5 the next five, and the other columns score 0.
\<close>

definition wide_row :: "int list" where
  "wide_row = [100, 98, 97, 96, 95, 94] @ replicate 79 0 @ [99]"

section \<open>Auxiliary facts\<close>

subsection \<open>Formatting is injective\<close>

lemma digit_cases: "d < 10 \<Longrightarrow> (d::nat) \<in> {0,1,2,3,4,5,6,7,8,9}"
  by auto

lemma digit_val_digit_char: "d < 10 \<Longrightarrow> digit_val (digit_char d) = d"
  using digit_cases[of d] by (auto simp: digit_val_def digit_char_def)

lemma digit_char_not_minus: "d < 10 \<Longrightarrow> digit_char d \<noteq> CHR ''-''"
  using digit_cases[of d] by (auto simp: digit_char_def)

lemma val_nat_snoc: "val_nat (s @ [c]) = 10 * val_nat s + digit_val c"
  by (simp add: val_nat_def)

lemma val_nat_str_nat: "val_nat (str_nat n) = n"
proof (induction n rule: str_nat.induct)
  case (1 n)
  show ?case
  proof (cases "n < 10")
    case True
    then show ?thesis by (simp add: str_nat.simps[of n] val_nat_def digit_val_digit_char)
  next
    case False
    then have "val_nat (str_nat n) = 10 * val_nat (str_nat (n div 10)) + digit_val (digit_char (n mod 10))"
      by (simp add: str_nat.simps[of n] val_nat_snoc)
    with False 1 show ?thesis by (simp add: digit_val_digit_char)
  qed
qed

lemma str_nat_inj: "str_nat m = str_nat n \<Longrightarrow> m = n"
  by (metis val_nat_str_nat)

lemma hd_str_nat: "str_nat n \<noteq> [] \<and> hd (str_nat n) \<noteq> CHR ''-''"
proof (induction n rule: str_nat.induct)
  case (1 n)
  show ?case
  proof (cases "n < 10")
    case True
    then show ?thesis by (simp add: str_nat.simps[of n] digit_char_not_minus)
  next
    case False
    with 1 show ?thesis by (simp add: str_nat.simps[of n])
  qed
qed

lemma str_nat_not_minus: "str_nat n \<noteq> CHR ''-'' # s"
  using hd_str_nat[of n] by (cases "str_nat n") auto

lemma str_int_inj:
  assumes "str_int i = str_int j"
  shows "i = j"
proof -
  consider "i < 0" "j < 0" | "i < 0" "\<not> j < 0" | "\<not> i < 0" "j < 0" | "\<not> i < 0" "\<not> j < 0"
    by blast
  then show ?thesis
  proof cases
    case 1
    with assms have "str_nat (nat (- i)) = str_nat (nat (- j))" by (simp add: str_int_def)
    then have "nat (- i) = nat (- j)" by (rule str_nat_inj)
    with 1 show ?thesis by simp
  next
    case 2
    with assms have "str_nat (nat j) = CHR ''-'' # str_nat (nat (- i))" by (simp add: str_int_def)
    then show ?thesis by (simp add: str_nat_not_minus)
  next
    case 3
    with assms have "str_nat (nat i) = CHR ''-'' # str_nat (nat (- j))" by (simp add: str_int_def)
    then show ?thesis by (simp add: str_nat_not_minus)
  next
    case 4
    with assms have "str_nat (nat i) = str_nat (nat j)" by (simp add: str_int_def)
    then have "nat i = nat j" by (rule str_nat_inj)
    with 4 show ?thesis by simp
  qed
qed

lemma key_of_eq_iff: "key_of i = key_of j \<longleftrightarrow> i = j"
  by (auto simp: key_of_def dest: str_int_inj)

lemma key_of_1: "key_of 1 = ''@1''"
  by (simp add: key_of_def str_int_def digit_char_def str_nat.simps)

lemma key_of_2: "key_of 2 = ''@2''"
  by (simp add: key_of_def str_int_def digit_char_def str_nat.simps)

lemma key_of_minus_1: "key_of (- 1) = ''@-1''"
  by (simp add: key_of_def str_int_def digit_char_def str_nat.simps)

subsection \<open>The sorting path of \<open>in1d\<close>\<close>

lemma sorted_wrt_filter_less:
  "sorted_wrt (<) (filter P xs) \<Longrightarrow> sorted_wrt (\<lambda>x y. P x \<and> P y \<longrightarrow> x < (y::nat)) xs"
  by (induction xs) (auto split: if_splits)

lemma stable_order_less:
  fixes ar :: "int list"
  defines "order \<equiv> sort_key (\<lambda>i. ar ! i) [0..<length ar]"
  assumes "p < q" "q < length ar" "ar ! (order ! p) = ar ! (order ! q)"
  shows "order ! p < order ! q"
proof -
  let ?P = "\<lambda>y. ar ! y = ar ! (order ! q)"
  have "filter ?P order = filter ?P [0..<length ar]"
    unfolding order_def by (rule sort_key_stable)
  moreover have "sorted_wrt (<) (filter ?P [0..<length ar])"
    by (simp add: sorted_wrt_filter)
  ultimately have "sorted_wrt (\<lambda>x y. ?P x \<and> ?P y \<longrightarrow> x < y) order"
    by (simp add: sorted_wrt_filter_less)
  moreover have "q < length order" using assms(3) by (simp add: order_def)
  ultimately have "?P (order ! p) \<and> ?P (order ! q) \<longrightarrow> order ! p < order ! q"
    using assms(2) by (simp add: sorted_wrt_iff_nth_less)
  with assms(4) show ?thesis by simp
qed

lemma flag_nth:
  assumes "p < length xs"
  shows "(map2 (=) (tl xs) (butlast xs) @ [False]) ! p = (Suc p < length xs \<and> xs ! Suc p = xs ! p)"
proof (cases "Suc p < length xs")
  case True
  then have "p < length xs - 1" by simp
  with True show ?thesis by (simp add: nth_append nth_tl nth_butlast)
next
  case False
  with assms have "length (map2 (=) (tl xs) (butlast xs)) = p" by simp
  then have "(map2 (=) (tl xs) (butlast xs) @ [False]) ! p = False"
    by (metis nth_append_length)
  with False show ?thesis by simp
qed

lemma sort_path_flag:
  fixes ar :: "int list"
  defines "order \<equiv> sort_key (\<lambda>i. ar ! i) [0..<length ar]"
  defines "sar \<equiv> map (\<lambda>i. ar ! i) order"
  defines "flag \<equiv> map2 (=) (tl sar) (butlast sar) @ [False]"
  assumes i: "i < length ar"
  shows "(case map_of (zip order flag) i of Some b \<Rightarrow> b | None \<Rightarrow> False)
           \<longleftrightarrow> (\<exists>j. i < j \<and> j < length ar \<and> ar ! j = ar ! i)"
proof -
  let ?N = "length ar"
  have len: "length order = ?N" "length sar = ?N" by (simp_all add: order_def sar_def)
  have dist: "distinct order" by (simp add: order_def)
  have set_order: "set order = {0..<?N}" by (simp add: order_def)
  have sorted: "sorted sar" unfolding sar_def order_def by (rule sorted_sort_key)
  have lenf: "length flag = ?N" using i by (simp add: flag_def len)
  from i set_order obtain p where p: "p < ?N" "order ! p = i"
    by (metis atLeastLessThan_iff in_set_conv_nth le0 len(1))
  have "map_of (zip order flag) (order ! p) = Some (flag ! p)"
    by (rule map_of_zip_nth) (simp_all add: len lenf dist p)
  then have ret: "(case map_of (zip order flag) i of Some b \<Rightarrow> b | None \<Rightarrow> False) = flag ! p"
    by (simp add: p)
  have fl: "flag ! p = (Suc p < ?N \<and> sar ! Suc p = sar ! p)"
    unfolding flag_def using flag_nth[of p sar] p by (simp add: len)
  have key: "sar ! q = ar ! (order ! q)" if "q < ?N" for q
    using that by (simp add: sar_def len)
  have "(Suc p < ?N \<and> sar ! Suc p = sar ! p) \<longleftrightarrow> (\<exists>j. i < j \<and> j < ?N \<and> ar ! j = ar ! i)"
  proof
    assume a: "Suc p < ?N \<and> sar ! Suc p = sar ! p"
    then have "ar ! (order ! p) = ar ! (order ! Suc p)"
      using key[of p] key[of "Suc p"] p(1) by simp
    then have "order ! p < order ! Suc p"
      unfolding order_def using a by (intro stable_order_less) simp_all
    moreover have "order ! Suc p < ?N"
      using a set_order len by (metis atLeastLessThan_iff nth_mem)
    moreover have "ar ! (order ! Suc p) = ar ! i"
      using a key[of p] key[of "Suc p"] p by simp
    ultimately show "\<exists>j. i < j \<and> j < ?N \<and> ar ! j = ar ! i" using p by blast
  next
    assume "\<exists>j. i < j \<and> j < ?N \<and> ar ! j = ar ! i"
    then obtain j where j: "i < j" "j < ?N" "ar ! j = ar ! i" by blast
    from j set_order obtain q where q: "q < ?N" "order ! q = j"
      by (metis atLeastLessThan_iff in_set_conv_nth le0 len(1))
    have "p \<noteq> q" using p q j by auto
    moreover have "\<not> q < p"
    proof
      assume "q < p"
      then have "order ! q < order ! p"
        unfolding order_def using p q j by (intro stable_order_less) (simp_all add: order_def[symmetric])
      with p q j show False by simp
    qed
    ultimately have pq: "p < q" by simp
    then have s: "Suc p < ?N" using q by simp
    have "sar ! p \<le> sar ! Suc p"
      using sorted s by (simp add: sorted_iff_nth_mono len)
    moreover have "sar ! Suc p \<le> sar ! q"
      using sorted pq q by (simp add: sorted_iff_nth_mono len)
    moreover have "sar ! q = sar ! p" using p q j by (simp add: key)
    ultimately show "Suc p < ?N \<and> sar ! Suc p = sar ! p" using s by simp
  qed
  with ret fl show ?thesis by simp
qed

lemma later_or_member:
  assumes "i < length ar1"
  shows "(\<exists>j. i < j \<and> j < length (ar1 @ ar2) \<and> (ar1 @ ar2) ! j = (ar1 @ ar2) ! i)
           \<longleftrightarrow> ar1 ! i \<in> set (drop (Suc i) ar1) \<or> ar1 ! i \<in> set ar2"
proof
  assume "\<exists>j. i < j \<and> j < length (ar1 @ ar2) \<and> (ar1 @ ar2) ! j = (ar1 @ ar2) ! i"
  then obtain j where j: "i < j" "j < length (ar1 @ ar2)" "(ar1 @ ar2) ! j = (ar1 @ ar2) ! i"
    by blast
  show "ar1 ! i \<in> set (drop (Suc i) ar1) \<or> ar1 ! i \<in> set ar2"
  proof (cases "j < length ar1")
    case True
    then have "ar1 ! j = ar1 ! i" using j assms by (simp add: nth_append)
    moreover have "ar1 ! j \<in> set (drop (Suc i) ar1)"
      using True j(1) by (auto simp: in_set_conv_nth intro!: exI[of _ "j - Suc i"])
    ultimately show ?thesis by simp
  next
    case False
    then have "ar2 ! (j - length ar1) = ar1 ! i" using j assms by (simp add: nth_append)
    moreover have "j - length ar1 < length ar2" using False j(2) by simp
    ultimately show ?thesis by (metis nth_mem)
  qed
next
  assume "ar1 ! i \<in> set (drop (Suc i) ar1) \<or> ar1 ! i \<in> set ar2"
  then show "\<exists>j. i < j \<and> j < length (ar1 @ ar2) \<and> (ar1 @ ar2) ! j = (ar1 @ ar2) ! i"
  proof
    assume "ar1 ! i \<in> set (drop (Suc i) ar1)"
    then obtain k where k: "k < length ar1 - Suc i" "drop (Suc i) ar1 ! k = ar1 ! i"
      by (auto simp: in_set_conv_nth)
    then have "ar1 ! (Suc i + k) = ar1 ! i" by simp
    moreover have "Suc i + k < length ar1" using k(1) by simp
    ultimately show ?thesis
      by (intro exI[of _ "Suc i + k"]) (simp add: nth_append)
  next
    assume "ar1 ! i \<in> set ar2"
    then obtain k where k: "k < length ar2" "ar2 ! k = ar1 ! i"
      by (auto simp: in_set_conv_nth)
    with assms show ?thesis
      by (intro exI[of _ "length ar1 + k"]) (simp add: nth_append)
  qed
qed

lemma in1d_sort_path_eq:
  "in1d_sort_path ar1 ar2
     = map (\<lambda>i. ar1 ! i \<in> set (drop (Suc i) ar1) \<or> ar1 ! i \<in> set ar2) [0..<length ar1]"
proof -
  have "(case map_of (zip (sort_key (\<lambda>i. (ar1 @ ar2) ! i) [0..<length (ar1 @ ar2)])
                          (map2 (=) (tl (map (\<lambda>i. (ar1 @ ar2) ! i)
                                           (sort_key (\<lambda>i. (ar1 @ ar2) ! i) [0..<length (ar1 @ ar2)])))
                                    (butlast (map (\<lambda>i. (ar1 @ ar2) ! i)
                                           (sort_key (\<lambda>i. (ar1 @ ar2) ! i) [0..<length (ar1 @ ar2)])))
                           @ [False])) i of Some b \<Rightarrow> b | None \<Rightarrow> False)
        = (ar1 ! i \<in> set (drop (Suc i) ar1) \<or> ar1 ! i \<in> set ar2)"
    if "i \<in> set [0..<length ar1]" for i
  proof -
    from that have i: "i < length ar1" by simp
    then have "i < length (ar1 @ ar2)" by simp
    from sort_path_flag[OF this] later_or_member[OF i, of ar2] show ?thesis by blast
  qed
  then show ?thesis
    unfolding in1d_sort_path_def Let_def by (rule map_cong[OF refl])
qed

text \<open>
  So the sorting path flags an element of \<open>ar1\<close> when it occurs in \<open>ar2\<close>, and also
  when the same value occurs later in \<open>ar1\<close> itself. On an array without repeated
  elements it tests plain membership.
\<close>

lemma in1d_sort_path_distinct:
  assumes "distinct ar1"
  shows "in1d_sort_path ar1 ar2 = in1d_member ar1 ar2"
proof -
  have "ar1 ! i \<notin> set (drop (Suc i) ar1)" if "i < length ar1" for i
    using assms that by (metis Cons_nth_drop_Suc distinct.simps(2) distinct_drop)
  then have "in1d_sort_path ar1 ar2 = map (\<lambda>i. ar1 ! i \<in> set ar2) [0..<length ar1]"
    unfolding in1d_sort_path_eq by (intro map_cong[OF refl]) simp
  also have "\<dots> = map (\<lambda>x. x \<in> set ar2) (map (\<lambda>i. ar1 ! i) [0..<length ar1])"
    by simp
  also have "\<dots> = in1d_member ar1 ar2"
    by (simp only: map_nth in1d_member_def)
  finally show ?thesis .
qed

subsection \<open>When \<open>in1d\<close> tests plain membership\<close>

lemma in1d_no_targets: "in1d [] ar2 = []"
  by (simp add: in1d_def in1d_member_def in1d_sort_path_eq)

lemma in1d_exact:
  assumes "distinct ar1 \<or> ar2 = []
           \<or> Max (set ar2) - Min (set ar2) \<le> 6 * (int (length ar1) + int (length ar2))"
  shows "in1d ar1 ar2 = in1d_member ar1 ar2"
proof (cases "ar2 = []")
  case True
  then show ?thesis by (simp add: in1d_def in1d_member_def map_replicate_const)
next
  case False
  with assms show ?thesis
    by (auto simp: in1d_def in1d_sort_path_distinct)
qed

lemma np_sum_map: "np_sum (map f xs) = int (length (filter f xs))"
  by (simp add: np_sum_def filter_map comp_def)

lemma count_filter_mono:
  "(\<And>x. x \<in> set xs \<Longrightarrow> P x \<Longrightarrow> Q x) \<Longrightarrow> length (filter P xs) \<le> length (filter Q xs)"
  by (induction xs) auto

lemma in1d_member_nth:
  "in1d_member ar1 ar2 = map (\<lambda>i. ar1 ! i \<in> set ar2) [0..<length ar1]"
proof -
  have "map (\<lambda>i. ar1 ! i \<in> set ar2) [0..<length ar1]
          = map (\<lambda>x. x \<in> set ar2) (map (\<lambda>i. ar1 ! i) [0..<length ar1])"
    by simp
  also have "\<dots> = in1d_member ar1 ar2"
    by (simp only: map_nth in1d_member_def)
  finally show ?thesis by simp
qed

lemma np_sum_member_le_in1d: "np_sum (in1d_member ar1 ar2) \<le> np_sum (in1d ar1 ar2)"
proof -
  have "np_sum (in1d_member ar1 ar2) \<le> np_sum (in1d_sort_path ar1 ar2)"
    unfolding in1d_member_nth in1d_sort_path_eq np_sum_map
    by (auto intro!: count_filter_mono)
  moreover have "in1d ar1 [] = in1d_member ar1 []"
    by (rule in1d_exact) simp
  ultimately show ?thesis
    by (cases "ar2 = []") (auto simp: in1d_def)
qed

subsection \<open>The constructor's loop\<close>

lemma zero_counts_apply:
  "zero_counts ats k = (if k \<in> key_of ` set ats then Some 0 else None)"
  by (induction ats) (auto simp: zero_counts_def)

lemma count_hits_result:
  assumes "key_of ` set ns \<subseteq> dom hc"
  shows "count_hits ids tgts ns hc =
           Inr (\<lambda>k. case hc k of
                       None \<Rightarrow> None
                     | Some v \<Rightarrow> Some (v + sum_list (map (hit_sum ids tgts) (filter (\<lambda>n. key_of n = k) ns))))"
  using assms
proof (induction ns arbitrary: hc)
  case Nil
  have "hc = (\<lambda>k. case hc k of None \<Rightarrow> None
               | Some v \<Rightarrow> Some (v + sum_list (map (hit_sum ids tgts) (filter (\<lambda>n. key_of n = k) []))))"
    by (rule ext) (simp split: option.split)
  then show ?case by (simp del: filter.simps)
next
  case (Cons n ns)
  from Cons.prems obtain c where c: "hc (key_of n) = Some c" by auto
  let ?hc' = "hc(key_of n \<mapsto> c + hit_sum ids tgts n)"
  have step: "dict_iadd hc (key_of n) (hit_sum ids tgts n) = Inr ?hc'"
    by (simp add: dict_iadd_def c)
  have sub: "key_of ` set ns \<subseteq> dom ?hc'" using Cons.prems by auto
  have "count_hits ids tgts (n # ns) hc = count_hits ids tgts ns ?hc'"
    by (simp add: step)
  also have "\<dots> = Inr (\<lambda>k. case ?hc' k of
                       None \<Rightarrow> None
                     | Some v \<Rightarrow> Some (v + sum_list (map (hit_sum ids tgts) (filter (\<lambda>n. key_of n = k) ns))))"
    by (rule Cons.IH[OF sub])
  also have "(\<lambda>k. case ?hc' k of
                       None \<Rightarrow> None
                     | Some v \<Rightarrow> Some (v + sum_list (map (hit_sum ids tgts) (filter (\<lambda>n. key_of n = k) ns))))
           = (\<lambda>k. case hc k of
                       None \<Rightarrow> None
                     | Some v \<Rightarrow> Some (v + sum_list (map (hit_sum ids tgts) (filter (\<lambda>n. key_of n = k) (n # ns)))))"
    by (rule ext) (auto simp: c split: option.split)
  finally show ?case .
qed

lemma init_result:
  "HitsCountPatch_init (Tensor2 rows) targets ats nm =
     Inr \<lparr>name = nm, at = ats,
          hits_count = (\<lambda>k. if k \<in> key_of ` set ats
                             then Some (sum_list (map (hit_sum (sort_desc_indices rows) targets)
                                                      (filter (\<lambda>n. key_of n = k) ats)))
                             else None)\<rparr>"
proof -
  have sub: "key_of ` set ats \<subseteq> dom (zero_counts ats)"
    by (auto simp: zero_counts_apply)
  have eq: "(\<lambda>k. case zero_counts ats k of None \<Rightarrow> None
              | Some v \<Rightarrow> Some (v + sum_list (map (hit_sum (sort_desc_indices rows) targets) (filter (\<lambda>n. key_of n = k) ats))))
        = (\<lambda>k. if k \<in> key_of ` set ats
                             then Some (sum_list (map (hit_sum (sort_desc_indices rows) targets)
                                                      (filter (\<lambda>n. key_of n = k) ats)))
                             else None)"
    by (rule ext) (simp add: zero_counts_apply)
  show ?thesis
    unfolding HitsCountPatch_init_def Let_def
    by (simp add: count_hits_result[OF sub] eq)
qed

text \<open>On a tensor of fewer than two dimensions the constructor raises.\<close>

lemma init_low_dimensional:
  "HitsCountPatch_init (Tensor0 x) targets ats nm = Inl (IndexError ''Dimension out of range'')"
  "HitsCountPatch_init (Tensor1 xs) targets ats nm = Inl (IndexError ''Dimension out of range'')"
  by (simp_all add: HitsCountPatch_init_def)

lemma init_Inr_cases:
  assumes "HitsCountPatch_init preds targets ats nm = Inr p"
  obtains rows where "preds = Tensor2 rows"
  using assms by (cases preds) (simp_all add: init_low_dimensional)

lemma hit_sum_nonneg: "0 \<le> hit_sum ids tgts n"
  by (simp add: hit_sum_def np_sum_def)

lemma filter_key_distinct:
  "distinct ats \<Longrightarrow> n \<in> set ats \<Longrightarrow> filter (\<lambda>m. key_of m = key_of n) ats = [n]"
  by (induction ats) (auto simp: key_of_eq_iff filter_empty_conv)

lemma slice_to_mono: "0 \<le> m \<Longrightarrow> m \<le> n \<Longrightarrow> set (slice_to m xs) \<subseteq> set (slice_to n xs)"
  by (auto simp: slice_to_def intro: set_take_subset_set_take[THEN subsetD, rotated])

text \<open>
  The count for one cutoff is at least the number of targets that occur among the first
  \<open>n\<close> sorted labels of any row of the batch, and exactly that number when the targets are
  pairwise distinct or all column indices lie between \<open>0\<close> and six times the number of
  targets: then \<open>in1d\<close> tests plain membership.
\<close>

lemma hit_sum_lower:
  "int (length (filter (\<lambda>t. \<exists>row\<in>set ids. t \<in> set (slice_to n row)) tgts)) \<le> hit_sum ids tgts n"
  using np_sum_member_le_in1d[of tgts "concat (map (slice_to n) ids)"]
  by (simp add: hit_sum_def in1d_member_def np_sum_map)

lemma slice_to_subset: "set (slice_to n xs) \<subseteq> set xs"
  by (simp add: slice_to_def set_take_subset)

lemma hit_sum_exact:
  assumes "distinct tgts \<or> (\<forall>x\<in>set (concat ids). 0 \<le> x \<and> x \<le> 6 * int (length tgts))"
  shows "hit_sum ids tgts n
           = int (length (filter (\<lambda>t. \<exists>row\<in>set ids. t \<in> set (slice_to n row)) tgts))"
proof -
  let ?ar2 = "concat (map (slice_to n) ids)"
  have "distinct tgts \<or> ?ar2 = []
        \<or> Max (set ?ar2) - Min (set ?ar2) \<le> 6 * (int (length tgts) + int (length ?ar2))"
  proof (cases "distinct tgts \<or> ?ar2 = []")
    case True
    then show ?thesis by blast
  next
    case False
    with assms have b: "\<forall>x\<in>set (concat ids). 0 \<le> x \<and> x \<le> 6 * int (length tgts)" by blast
    have sub: "set ?ar2 \<subseteq> set (concat ids)"
      using slice_to_subset by fastforce
    from False have ne: "set ?ar2 \<noteq> {}" by simp
    have "Max (set ?ar2) \<le> 6 * int (length tgts)"
      using ne b sub by (intro Max.boundedI) auto
    moreover have "0 \<le> Min (set ?ar2)"
      using ne b sub by (intro Min.boundedI) auto
    ultimately have "Max (set ?ar2) - Min (set ?ar2) \<le> 6 * (int (length tgts) + int (length ?ar2))"
      by simp
    then show ?thesis by blast
  qed
  then have "in1d tgts ?ar2 = in1d_member tgts ?ar2" by (rule in1d_exact)
  then show ?thesis
    by (simp add: hit_sum_def in1d_member_def np_sum_map)
qed

lemma hit_sum_mono:
  assumes "distinct tgts \<or> (\<forall>x\<in>set (concat ids). 0 \<le> x \<and> x \<le> 6 * int (length tgts))"
    and "0 \<le> m" "m \<le> n"
  shows "hit_sum ids tgts m \<le> hit_sum ids tgts n"
proof -
  have "set (slice_to m row) \<subseteq> set (slice_to n row)" for row :: "int list"
    using assms(2,3) by (rule slice_to_mono)
  then show ?thesis
    unfolding hit_sum_exact[OF assms(1)]
    by (auto intro!: count_filter_mono)
qed

text \<open>The sorted indices of a row are its column indices.\<close>

lemma argsort_desc_range: "x \<in> set (argsort_desc row) \<Longrightarrow> 0 \<le> x \<and> x < int (length row)"
  by (auto simp: argsort_desc_def)

lemma sort_desc_indices_range:
  assumes "\<forall>row\<in>set rows. int (length row) \<le> 6 * int (length tgts) + 1"
  shows "\<forall>x\<in>set (concat (sort_desc_indices rows)). 0 \<le> x \<and> x \<le> 6 * int (length tgts)"
proof
  fix x
  assume "x \<in> set (concat (sort_desc_indices rows))"
  then obtain row where row: "row \<in> set rows" "x \<in> set (argsort_desc row)"
    by (auto simp: sort_desc_indices_def)
  from argsort_desc_range[OF row(2)] assms row(1)
  show "0 \<le> x \<and> x \<le> 6 * int (length tgts)" by fastforce
qed

subsection \<open>Sums of dictionaries\<close>

lemma sum_dicts_pair:
  "sum_dicts [a, b] k =
     (case a k of None \<Rightarrow> b k
      | Some v \<Rightarrow> (case b k of None \<Rightarrow> Some v | Some w \<Rightarrow> Some (v + w)))"
  by (simp split: option.split)

lemma sum_dicts_commute: "sum_dicts [a, b] = sum_dicts [b, a]"
  by (rule ext) (simp add: sum_dicts_pair split: option.split)

lemma sum_dicts_assoc: "sum_dicts [sum_dicts [a, b], c] = sum_dicts [a, sum_dicts [b, c]]"
  by (rule ext) (simp add: sum_dicts_pair split: option.split)

lemma dom_sum_dicts_pair: "dom (sum_dicts [a, b]) = dom a \<union> dom b"
  by (auto simp: sum_dicts_pair dom_def split: option.splits)

lemma add_Patch: "add A (Patch B) = Inr (A\<lparr>hits_count := sum_dicts [hits_count A, hits_count B]\<rparr>)"
  by (simp add: add_def)

subsection \<open>What the constructor and the merge establish\<close>

lemma hit_sum_no_targets: "hit_sum ids [] n = 0"
  by (simp add: hit_sum_def in1d_no_targets np_sum_def)

lemma sum_list_zero: "(\<And>x. x \<in> set xs \<Longrightarrow> f x = (0::int)) \<Longrightarrow> sum_list (map f xs) = 0"
  by (induction xs) auto

lemma sum_list_nonneg_int: "(\<And>x. x \<in> set xs \<Longrightarrow> 0 \<le> f x) \<Longrightarrow> (0::int) \<le> sum_list (map f xs)"
  by (induction xs) auto

lemma init_keys:
  assumes "HitsCountPatch_init preds targets ats nm = Inr p"
  shows "keys_ok p \<and> at p = ats \<and> name p = nm"
proof -
  from assms obtain rows where "preds = Tensor2 rows" by (rule init_Inr_cases)
  with assms show ?thesis
    by (auto simp: init_result keys_ok_def dom_def split: if_splits)
qed

lemma init_nonneg:
  assumes "HitsCountPatch_init preds targets ats nm = Inr p"
  shows "counts_nonneg p"
proof -
  from assms obtain rows where "preds = Tensor2 rows" by (rule init_Inr_cases)
  with assms show ?thesis
    by (auto simp: init_result counts_nonneg_def hit_sum_nonneg intro!: sum_list_nonneg_int
        split: if_splits)
qed

lemma init_count:
  assumes "HitsCountPatch_init (Tensor2 rows) targets ats nm = Inr p" "distinct ats" "n \<in> set ats"
  shows "hits_count p (key_of n) = Some (hit_sum (sort_desc_indices rows) targets n)"
  using assms by (auto simp: init_result filter_key_distinct)

lemma init_monotone:
  assumes "HitsCountPatch_init (Tensor2 rows) targets ats nm = Inr p"
    and "distinct ats" "\<forall>n\<in>set ats. 0 \<le> n"
    and "distinct targets \<or> (\<forall>row\<in>set rows. int (length row) \<le> 6 * int (length targets) + 1)"
  shows "counts_monotone p"
proof -
  have at: "at p = ats"
    using init_keys[OF assms(1)] by simp
  have ex: "distinct targets
            \<or> (\<forall>x\<in>set (concat (sort_desc_indices rows)). 0 \<le> x \<and> x \<le> 6 * int (length targets))"
    using assms(4) sort_desc_indices_range[of rows targets] by blast
  show ?thesis
    unfolding counts_monotone_def at
    using assms(3) by (auto simp: init_count[OF assms(1,2)] intro: hit_sum_mono[OF ex])
qed

lemma init_no_items_all_zero:
  assumes "HitsCountPatch_init preds [] ats nm = Inr p"
  shows "all_zero p"
proof -
  from assms obtain rows where "preds = Tensor2 rows" by (rule init_Inr_cases)
  with assms show ?thesis
    by (auto simp: init_result all_zero_def hit_sum_no_targets intro!: sum_list_zero
        split: if_splits)
qed

lemma sum_dicts_zero_right:
  assumes "dom z = dom a" "\<forall>k c. z k = Some c \<longrightarrow> c = 0"
  shows "sum_dicts [a, z] = a"
proof (rule ext)
  fix k
  show "sum_dicts [a, z] k = a k"
  proof (cases "a k")
    case None
    with assms(1) have "z k = None" by (metis domIff)
    with None show ?thesis by (simp add: sum_dicts_pair)
  next
    case (Some v)
    with assms(1) obtain w where w: "z k = Some w" by (metis domIff not_Some_eq)
    with assms(2) have "w = 0" by blast
    with Some w show ?thesis by (simp add: sum_dicts_pair)
  qed
qed

lemma keys_ok_same_dom:
  "keys_ok A \<Longrightarrow> keys_ok B \<Longrightarrow> set (at A) = set (at B) \<Longrightarrow> dom (hits_count A) = dom (hits_count B)"
  by (simp add: keys_ok_def)

lemma add_preserves_inv:
  assumes A: "patch_inv A" and B: "patch_inv B" and same: "set (at B) = set (at A)"
  shows "patch_inv (A\<lparr>hits_count := sum_dicts [hits_count A, hits_count B]\<rparr>)"
proof -
  let ?R = "A\<lparr>hits_count := sum_dicts [hits_count A, hits_count B]\<rparr>"
  have domA: "dom (hits_count A) = key_of ` set (at A)" and domB: "dom (hits_count B) = key_of ` set (at A)"
    using A B same by (simp_all add: patch_inv_def keys_ok_def)
  have k: "keys_ok ?R"
    by (simp add: keys_ok_def dom_sum_dicts_pair domA domB del: sum_dicts.simps)
  have n: "counts_nonneg ?R"
    using A B unfolding patch_inv_def counts_nonneg_def
    by (auto simp: sum_dicts_pair simp del: sum_dicts.simps split: option.splits)
  have m: "counts_monotone ?R"
    unfolding counts_monotone_def
  proof (intro ballI allI impI)
    fix m n c d
    assume mn: "m \<in> set (at ?R)" "n \<in> set (at ?R)"
      and h: "m \<le> n \<and> hits_count ?R (key_of m) = Some c \<and> hits_count ?R (key_of n) = Some d"
    from mn have mA: "m \<in> set (at A)" and nA: "n \<in> set (at A)" by simp_all
    from mA domA domB obtain a1 b1 where 1: "hits_count A (key_of m) = Some a1" "hits_count B (key_of m) = Some b1"
      by (metis domD imageI)
    from nA domA domB obtain a2 b2 where 2: "hits_count A (key_of n) = Some a2" "hits_count B (key_of n) = Some b2"
      by (metis domD imageI)
    have "a1 \<le> a2" using A mA nA h 1 2 unfolding patch_inv_def counts_monotone_def by blast
    moreover have "b1 \<le> b2" using B mA nA h 1 2 same unfolding patch_inv_def counts_monotone_def by blast
    moreover have "c = a1 + b1" "d = a2 + b2"
      using h 1 2 by (simp_all add: sum_dicts_pair del: sum_dicts.simps)
    ultimately show "c \<le> d" by simp
  qed
  show ?thesis using k n m by (simp add: patch_inv_def)
qed

text \<open>
  The count described by the specification is never more than what the constructor
  stores, and equals it on a batch of one sample.
\<close>

lemma count_zip_le:
  "(\<And>x y. (x, y) \<in> set (zip xs ys) \<Longrightarrow> Q (x, y) \<Longrightarrow> P y)
     \<Longrightarrow> length (filter Q (zip xs ys)) \<le> length (filter P ys)"
proof (induction xs arbitrary: ys)
  case Nil
  then show ?case by simp
next
  case (Cons x xs)
  show ?case
  proof (cases ys)
    case Nil
    then show ?thesis by simp
  next
    case (Cons y ys')
    have "length (filter Q (zip xs ys')) \<le> length (filter P ys')"
      using Cons.prems Cons by (intro Cons.IH) auto
    moreover have "Q (x, y) \<Longrightarrow> P y"
      using Cons.prems Cons by auto
    ultimately show ?thesis using Cons by auto
  qed
qed

lemma spec_hits_le_hit_sum: "spec_hits ids tgts n \<le> hit_sum ids tgts n"
proof -
  have "spec_hits ids tgts n
          \<le> int (length (filter (\<lambda>t. \<exists>row\<in>set ids. t \<in> set (slice_to n row)) tgts))"
    unfolding spec_hits_def by (auto intro!: count_zip_le dest: set_zip_leftD)
  with hit_sum_lower[where ids = ids and tgts = tgts and n = n] show ?thesis by simp
qed

lemma hit_sum_single_sample: "hit_sum [row] [t] n = spec_hits [row] [t] n"
  by (simp add: hit_sum_exact spec_hits_def)

subsection \<open>Calls on a store\<close>

lemma call_add_eq:
  "call_add A B h = Inr (A, h(A := (h A)\<lparr>hits_count := sum_dicts [hits_count (h A), hits_count (h B)]\<rparr>))"
  by (simp add: call_add_def add_Patch del: sum_dicts.simps)



text \<open>
  The merge on a store, each nesting started from the same store: with distinct objects
  the two nestings and the two orders leave equal values in their results.
\<close>

lemma call_add_assoc_on_store:
  assumes "a \<noteq> b" "a \<noteq> c"
  shows "\<exists>h1 h2 k1 k2.
           call_add a b h = Inr (a, h1) \<and> call_add a c h1 = Inr (a, h2)
         \<and> call_add b c h = Inr (b, k1) \<and> call_add a b k1 = Inr (a, k2)
         \<and> fst (call_forward a h2) = fst (call_forward a k2)"
  using assms
  by (simp add: call_add_eq call_forward_def forward_def sum_dicts_assoc del: sum_dicts.simps)

lemma call_add_commute_on_store:
  assumes "a \<noteq> b"
  shows "\<exists>h1 k1. call_add a b h = Inr (a, h1) \<and> call_add b a h = Inr (b, k1)
         \<and> fst (call_forward a h1) = fst (call_forward b k1)"
  using assms
  by (simp add: call_add_eq call_forward_def forward_def del: sum_dicts.simps) (rule sum_dicts_commute)

subsection \<open>Evaluating dictionaries with the labels of the default cutoffs\<close>

lemma map_12_swap: "[''@2'' \<mapsto> x, ''@1'' \<mapsto> y] = [''@1'' \<mapsto> y, ''@2'' \<mapsto> (x::int)]"
  by (rule ext) simp

lemma key_of_6: "key_of 6 = ''@6''"
  by (simp add: key_of_def str_int_def digit_char_def str_nat.simps)

lemma key_of_7: "key_of 7 = ''@7''"
  by (simp add: key_of_def str_int_def digit_char_def str_nat.simps)

text \<open>The seven best columns of the wide row.\<close>

lemma take_argsort_wide_row:
  "take 6 (argsort_desc wide_row) = [0, 85, 1, 2, 3, 4]"
  "take 7 (argsort_desc wide_row) = [0, 85, 1, 2, 3, 4, 5]"
  by code_simp+

section \<open>The claims\<close>

text \<open>
  C1. With cutoffs \<open>(1, 2)\<close> and a batch of four samples whose true labels have the ranks
  1, 3, 1, 2 in the sorted scores, the specification expects the counts \<open>2\<close> and \<open>3\<close>: the
  number of samples whose own label is among that sample's top-\<open>n\<close> labels. The constructor
  tests every target against the top-\<open>n\<close> labels of all the rows of the batch at once, so
  on this batch it stores \<open>4\<close> under both labels.
\<close>

theorem hits_scenario_counts_batch_wide:
  "map2 rank_in (sort_desc_indices [[3, 2, 1], [3, 2, 1], [2, 3, 1], [2, 1, 3 :: int]]) [0, 2, 1, 0]
     = [1, 3, 1, 2]
   \<and> HitsCountPatch_init (Tensor2 [[3, 2, 1], [3, 2, 1], [2, 3, 1], [2, 1, 3 :: int]]) [0, 2, 1, 0] [1, 2] None
     = Inr \<lparr>name = None, at = [1, 2], hits_count = [''@1'' \<mapsto> 4, ''@2'' \<mapsto> 4]\<rparr>
   \<and> forward \<lparr>name = None, at = [1, 2], hits_count = [''@1'' \<mapsto> 4, ''@2'' \<mapsto> 4]\<rparr>
     = [''@1'' \<mapsto> 4, ''@2'' \<mapsto> 4]
   \<and> spec_hits (sort_desc_indices [[3, 2, 1], [3, 2, 1], [2, 3, 1], [2, 1, 3 :: int]]) [0, 2, 1, 0] 1 = 2
   \<and> spec_hits (sort_desc_indices [[3, 2, 1], [3, 2, 1], [2, 3, 1], [2, 1, 3 :: int]]) [0, 2, 1, 0] 2 = 3"
proof -
  have ids: "sort_desc_indices [[3, 2, 1], [3, 2, 1], [2, 3, 1], [2, 1, 3 :: int]]
               = [[0, 1, 2], [0, 1, 2], [1, 0, 2], [2, 0, 1]]"
    by (simp add: sort_desc_indices_def argsort_desc_def upt_conv_Cons)
  have h1: "hit_sum [[0, 1, 2], [0, 1, 2], [1, 0, 2], [2, 0, 1]] [0, 2, 1, 0] 1 = 4"
    by (simp add: hit_sum_def slice_to_def in1d_def in1d_member_def np_sum_def)
  have h2: "hit_sum [[0, 1, 2], [0, 1, 2], [1, 0, 2], [2, 0, 1]] [0, 2, 1, 0] 2 = 4"
    by (simp add: hit_sum_def slice_to_def in1d_def in1d_member_def np_sum_def)
  have ranks: "map2 rank_in [[0, 1, 2], [0, 1, 2], [1, 0, 2], [2, 0, 1]] [0, 2, 1, 0] = [1, 3, 1, 2]"
    by (simp add: rank_in_def)
  have init: "HitsCountPatch_init (Tensor2 [[3, 2, 1], [3, 2, 1], [2, 3, 1], [2, 1, 3 :: int]]) [0, 2, 1, 0] [1, 2] None
     = Inr \<lparr>name = None, at = [1, 2], hits_count = [''@1'' \<mapsto> 4, ''@2'' \<mapsto> 4]\<rparr>"
    by (simp add: HitsCountPatch_init_def ids key_of_1 key_of_2 h1 h2 zero_counts_def dict_iadd_def
        map_12_swap)
  have s1: "spec_hits [[0, 1, 2], [0, 1, 2], [1, 0, 2], [2, 0, 1]] [0, 2, 1, 0] 1 = 2"
    by (simp add: spec_hits_def slice_to_def)
  have s2: "spec_hits [[0, 1, 2], [0, 1, 2], [1, 0, 2], [2, 0, 1]] [0, 2, 1, 0] 2 = 3"
    by (simp add: spec_hits_def slice_to_def)
  show ?thesis
    using ranks init s1 s2 by (simp only: ids forward_def HitsCountPatch.simps simp_thms)
qed

text \<open>
  C2. Splitting a batch in two, constructing an accumulator for each part and merging
  them should give the value of one accumulator over the whole batch. With two samples
  whose labels are each other's top label, the two parts count no hit at cutoff 1 and
  the whole batch counts two.
\<close>

theorem split_then_merge_differs:
  "HitsCountPatch_init (Tensor2 [[2, 1 :: int]]) [1] [1, 2] None
     = Inr \<lparr>name = None, at = [1, 2], hits_count = [''@1'' \<mapsto> 0, ''@2'' \<mapsto> 1]\<rparr>
   \<and> HitsCountPatch_init (Tensor2 [[1, 2 :: int]]) [0] [1, 2] None
     = Inr \<lparr>name = None, at = [1, 2], hits_count = [''@1'' \<mapsto> 0, ''@2'' \<mapsto> 1]\<rparr>
   \<and> add \<lparr>name = None, at = [1, 2], hits_count = [''@1'' \<mapsto> 0, ''@2'' \<mapsto> 1]\<rparr>
          (Patch \<lparr>name = None, at = [1, 2], hits_count = [''@1'' \<mapsto> 0, ''@2'' \<mapsto> 1]\<rparr>)
     = Inr \<lparr>name = None, at = [1, 2], hits_count = [''@1'' \<mapsto> 0, ''@2'' \<mapsto> 2]\<rparr>
   \<and> HitsCountPatch_init (Tensor2 [[2, 1], [1, 2 :: int]]) [1, 0] [1, 2] None
     = Inr \<lparr>name = None, at = [1, 2], hits_count = [''@1'' \<mapsto> 2, ''@2'' \<mapsto> 2]\<rparr>
   \<and> forward \<lparr>name = None, at = [1, 2], hits_count = [''@1'' \<mapsto> 0, ''@2'' \<mapsto> 2]\<rparr>
     \<noteq> forward \<lparr>name = None, at = [1, 2], hits_count = [''@1'' \<mapsto> 2, ''@2'' \<mapsto> 2]\<rparr>"
proof -
  have idsA: "sort_desc_indices [[2, 1 :: int]] = [[0, 1]]"
    by (simp add: sort_desc_indices_def argsort_desc_def upt_conv_Cons)
  have idsB: "sort_desc_indices [[1, 2 :: int]] = [[1, 0]]"
    by (simp add: sort_desc_indices_def argsort_desc_def upt_conv_Cons)
  have idsW: "sort_desc_indices [[2, 1], [1, 2 :: int]] = [[0, 1], [1, 0]]"
    by (simp add: sort_desc_indices_def argsort_desc_def upt_conv_Cons)
  have hA: "hit_sum [[0, 1]] [1] 1 = 0" "hit_sum [[0, 1]] [1] 2 = 1"
    by (simp_all add: hit_sum_def slice_to_def in1d_def in1d_member_def np_sum_def)
  have hB: "hit_sum [[1, 0]] [0] 1 = 0" "hit_sum [[1, 0]] [0] 2 = 1"
    by (simp_all add: hit_sum_def slice_to_def in1d_def in1d_member_def np_sum_def)
  have hW: "hit_sum [[0, 1], [1, 0]] [1, 0] 1 = 2" "hit_sum [[0, 1], [1, 0]] [1, 0] 2 = 2"
    by (simp_all add: hit_sum_def slice_to_def in1d_def in1d_member_def np_sum_def)
  have A: "HitsCountPatch_init (Tensor2 [[2, 1 :: int]]) [1] [1, 2] None
     = Inr \<lparr>name = None, at = [1, 2], hits_count = [''@1'' \<mapsto> 0, ''@2'' \<mapsto> 1]\<rparr>"
    by (simp add: HitsCountPatch_init_def idsA key_of_1 key_of_2 hA zero_counts_def dict_iadd_def
        map_12_swap)
  have B: "HitsCountPatch_init (Tensor2 [[1, 2 :: int]]) [0] [1, 2] None
     = Inr \<lparr>name = None, at = [1, 2], hits_count = [''@1'' \<mapsto> 0, ''@2'' \<mapsto> 1]\<rparr>"
    by (simp add: HitsCountPatch_init_def idsB key_of_1 key_of_2 hB zero_counts_def dict_iadd_def
        map_12_swap)
  have W: "HitsCountPatch_init (Tensor2 [[2, 1], [1, 2 :: int]]) [1, 0] [1, 2] None
     = Inr \<lparr>name = None, at = [1, 2], hits_count = [''@1'' \<mapsto> 2, ''@2'' \<mapsto> 2]\<rparr>"
    by (simp add: HitsCountPatch_init_def idsW key_of_1 key_of_2 hW zero_counts_def dict_iadd_def
        map_12_swap)
  have sum: "sum_dicts [[''@1'' \<mapsto> 0, ''@2'' \<mapsto> 1], [''@1'' \<mapsto> 0, ''@2'' \<mapsto> 1]]
               = [''@1'' \<mapsto> 0, ''@2'' \<mapsto> 2]"
    by (rule ext) (simp add: sum_dicts_pair)
  have M: "add \<lparr>name = None, at = [1, 2], hits_count = [''@1'' \<mapsto> 0, ''@2'' \<mapsto> 1]\<rparr>
          (Patch \<lparr>name = None, at = [1, 2], hits_count = [''@1'' \<mapsto> 0, ''@2'' \<mapsto> 1]\<rparr>)
     = Inr \<lparr>name = None, at = [1, 2], hits_count = [''@1'' \<mapsto> 0, ''@2'' \<mapsto> 2]\<rparr>"
    by (simp add: add_Patch sum del: sum_dicts.simps)
  have "[''@1'' \<mapsto> 0 :: int, ''@2'' \<mapsto> 2] ''@1'' \<noteq> [''@1'' \<mapsto> 2, ''@2'' \<mapsto> 2] ''@1''"
    by simp
  then have ne: "[''@1'' \<mapsto> 0 :: int, ''@2'' \<mapsto> 2] \<noteq> [''@1'' \<mapsto> 2, ''@2'' \<mapsto> 2]"
    by metis
  show ?thesis
    using A B M W ne by (simp only: forward_def HitsCountPatch.simps simp_thms)
qed



text \<open>
  C4. For accumulators \<open>A\<close>, \<open>B\<close>, \<open>C\<close> with the same cutoff set, merging is associative
  and commutative on values: \<^verbatim>\<open>add(add(A, B), C)\<close> and \<^verbatim>\<open>add(A, add(B, C))\<close> have equal
  \<^verbatim>\<open>forward()\<close> values, and so have \<^verbatim>\<open>add(A, B)\<close> and \<^verbatim>\<open>add(B, A)\<close>. Every \<^verbatim>\<open>add\<close>
  starts from the operands as given.
\<close>

theorem add_assoc_commute:
  assumes "keys_ok A" "keys_ok B" "keys_ok C" "set (at A) = set (at B)" "set (at B) = set (at C)"
  shows "\<exists>AB AB_C BC A_BC BA.
           add A (Patch B) = Inr AB \<and> add AB (Patch C) = Inr AB_C
         \<and> add B (Patch C) = Inr BC \<and> add A (Patch BC) = Inr A_BC
         \<and> add B (Patch A) = Inr BA
         \<and> forward AB_C = forward A_BC
         \<and> forward AB = forward BA"
proof -
  let ?a = "hits_count A" and ?b = "hits_count B" and ?c = "hits_count C"
  have assoc: "sum_dicts [sum_dicts [?a, ?b], ?c] = sum_dicts [?a, sum_dicts [?b, ?c]]"
    by (rule sum_dicts_assoc)
  have comm: "sum_dicts [?a, ?b] = sum_dicts [?b, ?a]"
    by (rule sum_dicts_commute)
  show ?thesis
    unfolding add_Patch forward_def
    by (simp add: assoc del: sum_dicts.simps) (rule comm)
qed

theorem add_assoc_commute_witness:
  "keys_ok \<lparr>name = None, at = [1, 2], hits_count = [''@1'' \<mapsto> 2, ''@2'' \<mapsto> 3]\<rparr>
   \<and> (\<exists>AB AB_C BC A_BC BA.
           add \<lparr>name = None, at = [1, 2], hits_count = [''@1'' \<mapsto> 2, ''@2'' \<mapsto> 3]\<rparr>
               (Patch \<lparr>name = None, at = [1, 2], hits_count = [''@1'' \<mapsto> 0, ''@2'' \<mapsto> 1]\<rparr>) = Inr AB
         \<and> add AB (Patch \<lparr>name = None, at = [1, 2], hits_count = [''@1'' \<mapsto> 1, ''@2'' \<mapsto> 1]\<rparr>) = Inr AB_C
         \<and> add \<lparr>name = None, at = [1, 2], hits_count = [''@1'' \<mapsto> 0, ''@2'' \<mapsto> 1]\<rparr>
               (Patch \<lparr>name = None, at = [1, 2], hits_count = [''@1'' \<mapsto> 1, ''@2'' \<mapsto> 1]\<rparr>) = Inr BC
         \<and> add \<lparr>name = None, at = [1, 2], hits_count = [''@1'' \<mapsto> 2, ''@2'' \<mapsto> 3]\<rparr> (Patch BC) = Inr A_BC
         \<and> add \<lparr>name = None, at = [1, 2], hits_count = [''@1'' \<mapsto> 0, ''@2'' \<mapsto> 1]\<rparr>
               (Patch \<lparr>name = None, at = [1, 2], hits_count = [''@1'' \<mapsto> 2, ''@2'' \<mapsto> 3]\<rparr>) = Inr BA
         \<and> forward AB_C = forward A_BC
         \<and> forward AB = forward BA)"
proof -
  have k: "keys_ok \<lparr>name = None, at = [1, 2], hits_count = [''@1'' \<mapsto> x, ''@2'' \<mapsto> y]\<rparr>" for x y
    by (auto simp: keys_ok_def key_of_1 key_of_2)
  show ?thesis
    using k add_assoc_commute[OF k[of 2 3] k[of 0 1] k[of 1 1]] by simp
qed

text \<open>
  C5. Merging an accumulator \<open>A\<close> with an accumulator of the same cutoff set whose counts
  are all zero, as one built from zero observed items is, leaves the value of \<open>A\<close>:
  the result's \<^verbatim>\<open>forward()\<close> equals that of \<open>A\<close>, in either order of the operands.
\<close>

theorem add_zero_is_noop:
  assumes "keys_ok A" "keys_ok Z" "set (at Z) = set (at A)" "all_zero Z"
  shows "\<exists>R R'. add A (Patch Z) = Inr R \<and> forward R = forward A
               \<and> add Z (Patch A) = Inr R' \<and> forward R' = forward A"
proof -
  have d: "dom (hits_count Z) = dom (hits_count A)"
    using assms(1-3) by (simp add: keys_ok_def)
  have z: "\<forall>k c. hits_count Z k = Some c \<longrightarrow> c = 0"
    using assms(4) by (simp add: all_zero_def)
  have "sum_dicts [hits_count A, hits_count Z] = hits_count A"
    by (rule sum_dicts_zero_right[OF d z])
  moreover from this have "sum_dicts [hits_count Z, hits_count A] = hits_count A"
    by (simp only: sum_dicts_commute[of "hits_count Z"])
  ultimately show ?thesis
    by (simp add: add_Patch forward_def del: sum_dicts.simps)
qed

theorem add_zero_is_noop_witness:
  "HitsCountPatch_init (Tensor2 ([] :: int list list)) [] [1, 2] None
     = Inr \<lparr>name = None, at = [1, 2], hits_count = [''@1'' \<mapsto> 0, ''@2'' \<mapsto> 0]\<rparr>
   \<and> (\<exists>R R'. add \<lparr>name = None, at = [1, 2], hits_count = [''@1'' \<mapsto> 2, ''@2'' \<mapsto> 3]\<rparr>
                 (Patch \<lparr>name = None, at = [1, 2], hits_count = [''@1'' \<mapsto> 0, ''@2'' \<mapsto> 0]\<rparr>) = Inr R
            \<and> forward R = forward \<lparr>name = None, at = [1, 2], hits_count = [''@1'' \<mapsto> 2, ''@2'' \<mapsto> 3]\<rparr>
            \<and> add \<lparr>name = None, at = [1, 2], hits_count = [''@1'' \<mapsto> 0, ''@2'' \<mapsto> 0]\<rparr>
                 (Patch \<lparr>name = None, at = [1, 2], hits_count = [''@1'' \<mapsto> 2, ''@2'' \<mapsto> 3]\<rparr>) = Inr R'
            \<and> forward R' = forward \<lparr>name = None, at = [1, 2], hits_count = [''@1'' \<mapsto> 2, ''@2'' \<mapsto> 3]\<rparr>)"
proof -
  have k: "keys_ok \<lparr>name = None, at = [1, 2], hits_count = [''@1'' \<mapsto> x, ''@2'' \<mapsto> y]\<rparr>" for x y
    by (auto simp: keys_ok_def key_of_1 key_of_2)
  have z: "all_zero \<lparr>name = None, at = [1, 2], hits_count = [''@1'' \<mapsto> 0, ''@2'' \<mapsto> 0]\<rparr>"
    by (auto simp: all_zero_def split: if_splits)
  have h: "hit_sum [] [] 1 = 0" "hit_sum [] [] 2 = 0"
    by (simp_all add: hit_sum_no_targets)
  have i: "HitsCountPatch_init (Tensor2 ([] :: int list list)) [] [1, 2] None
     = Inr \<lparr>name = None, at = [1, 2], hits_count = [''@1'' \<mapsto> 0, ''@2'' \<mapsto> 0]\<rparr>"
    by (simp add: HitsCountPatch_init_def sort_desc_indices_def key_of_1 key_of_2 h zero_counts_def
        dict_iadd_def map_12_swap)
  show ?thesis
    using i add_zero_is_noop[OF k[of 2 3] k[of 0 0] _ z] by simp
qed

text \<open>
  C6, as stated: constructing from predictions and targets with different numbers of
  samples fails with an input-validation error. The constructor does not compare the two
  sizes: with one row of predictions and three targets it completes and counts the three
  targets.
\<close>

theorem init_accepts_mismatched_batch:
  "length [[2, 1 :: int]] \<noteq> length [0, 1, 1 :: int]
   \<and> HitsCountPatch_init (Tensor2 [[2, 1 :: int]]) [0, 1, 1] [1, 2] None
     = Inr \<lparr>name = None, at = [1, 2], hits_count = [''@1'' \<mapsto> 1, ''@2'' \<mapsto> 3]\<rparr>"
proof -
  have ids: "sort_desc_indices [[2, 1 :: int]] = [[0, 1]]"
    by (simp add: sort_desc_indices_def argsort_desc_def upt_conv_Cons)
  have h: "hit_sum [[0, 1]] [0, 1, 1] 1 = 1" "hit_sum [[0, 1]] [0, 1, 1] 2 = 3"
    by (simp_all add: hit_sum_def slice_to_def in1d_def in1d_member_def np_sum_def)
  show ?thesis
    by (simp add: HitsCountPatch_init_def ids key_of_1 key_of_2 h zero_counts_def dict_iadd_def
        map_12_swap)
qed

text \<open>
  C6, amended: constructing from a two-dimensional predictions tensor and targets whose
  numbers of samples do not match does not fail. The batch sizes are not validated and
  there is no error for them: construction completes and yields an accumulator with the
  given \<^verbatim>\<open>at\<close> and \<^verbatim>\<open>name\<close> whose key set is the set of labels of the cutoffs.
\<close>

theorem init_ignores_batch_sizes:
  assumes "length rows \<noteq> length targets"
  shows "\<exists>hc. HitsCountPatch_init (Tensor2 rows) targets ats nm
                 = Inr \<lparr>name = nm, at = ats, hits_count = hc\<rparr>
              \<and> dom hc = key_of ` set ats"
  by (auto simp: init_result dom_def split: if_splits)

theorem init_ignores_batch_sizes_witness:
  "length [[2, 1 :: int]] \<noteq> length [0, 1, 1 :: int]
   \<and> (\<exists>hc. HitsCountPatch_init (Tensor2 [[2, 1 :: int]]) [0, 1, 1] [1, 2] (Some ''nhits'')
                 = Inr \<lparr>name = Some ''nhits'', at = [1, 2], hits_count = hc\<rparr>
              \<and> dom hc = key_of ` set [1, 2])"
proof -
  have ne: "length [[2, 1 :: int]] \<noteq> length [0, 1, 1 :: int]" by simp
  from ne init_ignores_batch_sizes[OF ne] show ?thesis by blast
qed

text \<open>
  C7. \<^verbatim>\<open>forward()\<close> takes nothing but its receiver, returns the receiver's
  \<^verbatim>\<open>hits_count\<close> mapping, and is a pure read: after any number of calls the store, and
  with it every field of the accumulator, is what it was, and the call returns the same
  value.
\<close>

theorem forward_is_pure_read:
  "fst (call_forward self h) = hits_count (h self)
   \<and> snd (call_forward self h) = h
   \<and> ((\<lambda>s. snd (call_forward self s)) ^^ n) h = h
   \<and> fst (call_forward self (((\<lambda>s. snd (call_forward self s)) ^^ n) h)) = hits_count (h self)
   \<and> forward p = hits_count p"
proof -
  have it: "((\<lambda>s. snd (call_forward self s)) ^^ n) h = h"
    by (induction n) (simp_all add: call_forward_def)
  show ?thesis
    by (simp add: it) (simp add: call_forward_def forward_def)
qed

text \<open>
  C8. The value of a merge is determined by the \<^verbatim>\<open>hits_count\<close> mappings of the two
  operands alone: two calls whose receivers hold equal mappings and whose operands offer
  equal \<^verbatim>\<open>hits_count\<close> attributes give equal results, whatever the other fields are and
  whatever data the operands were constructed from.
\<close>

theorem add_result_from_counts_only:
  assumes "hits_count A1 = hits_count A2" "getattr_hits_count obj1 = getattr_hits_count obj2"
  shows "map_sum id forward (add A1 obj1) = map_sum id forward (add A2 obj2)"
  using assms by (simp add: add_def forward_def del: sum_dicts.simps split: sum.split)

theorem add_result_from_counts_only_witness:
  "map_sum id forward
     (add \<lparr>name = None, at = [1, 2], hits_count = [''@1'' \<mapsto> 2, ''@2'' \<mapsto> 3]\<rparr>
          (Patch \<lparr>name = None, at = [1, 2], hits_count = [''@1'' \<mapsto> 0, ''@2'' \<mapsto> 1]\<rparr>))
   = map_sum id forward
     (add \<lparr>name = Some ''nhits'', at = [2, 1], hits_count = [''@1'' \<mapsto> 2, ''@2'' \<mapsto> 3]\<rparr>
          (Instance ''OtherPatch'' (Some [''@1'' \<mapsto> 0, ''@2'' \<mapsto> 1])))"
  by (rule add_result_from_counts_only) simp_all




text \<open>
  C10, as stated: every accumulator has counts that do not decrease with the cutoff.
  A cutoff repeated in \<^verbatim>\<open>at\<close> is counted once per occurrence under the one label, and a
  negative cutoff slices from the end of the row; in both cases the constructor yields
  counts that decrease. They also decrease for the distinct cutoffs 6 and 7 on a batch of
  two samples with the same label and 86 columns: for cutoff 6 \<^verbatim>\<open>np.in1d\<close> sorts and,
  told that the targets are unique, flags the first of the two equal targets although the
  label is in no row; for cutoff 7 it uses the table and flags none.
\<close>

theorem counts_not_monotone:
  "HitsCountPatch_init (Tensor2 [[2, 1 :: int]]) [0] [1, 1, 2] None
     = Inr \<lparr>name = None, at = [1, 1, 2], hits_count = [''@1'' \<mapsto> 2, ''@2'' \<mapsto> 1]\<rparr>
   \<and> \<not> counts_monotone \<lparr>name = None, at = [1, 1, 2], hits_count = [''@1'' \<mapsto> 2, ''@2'' \<mapsto> 1]\<rparr>
   \<and> HitsCountPatch_init (Tensor2 [[3, 2, 1 :: int]]) [1] [- 1, 1] None
     = Inr \<lparr>name = None, at = [- 1, 1], hits_count = [''@-1'' \<mapsto> 1, ''@1'' \<mapsto> 0]\<rparr>
   \<and> \<not> counts_monotone \<lparr>name = None, at = [- 1, 1], hits_count = [''@-1'' \<mapsto> 1, ''@1'' \<mapsto> 0]\<rparr>
   \<and> HitsCountPatch_init (Tensor2 [wide_row, wide_row]) [50, 50] [6, 7] None
     = Inr \<lparr>name = None, at = [6, 7], hits_count = [''@6'' \<mapsto> 1, ''@7'' \<mapsto> 0]\<rparr>
   \<and> \<not> counts_monotone \<lparr>name = None, at = [6, 7], hits_count = [''@6'' \<mapsto> 1, ''@7'' \<mapsto> 0]\<rparr>"
proof -
  have ids1: "sort_desc_indices [[2, 1 :: int]] = [[0, 1]]"
    by (simp add: sort_desc_indices_def argsort_desc_def upt_conv_Cons)
  have ids2: "sort_desc_indices [[3, 2, 1 :: int]] = [[0, 1, 2]]"
    by (simp add: sort_desc_indices_def argsort_desc_def upt_conv_Cons)
  have h1: "hit_sum [[0, 1]] [0] 1 = 1" "hit_sum [[0, 1]] [0] 2 = 1"
    by (simp_all add: hit_sum_def slice_to_def in1d_def in1d_member_def np_sum_def)
  have h2: "hit_sum [[0, 1, 2]] [1] (- 1) = 1" "hit_sum [[0, 1, 2]] [1] 1 = 0"
    by (simp_all add: hit_sum_def slice_to_def in1d_def in1d_member_def np_sum_def)
  have h6: "hit_sum (sort_desc_indices [wide_row, wide_row]) [50, 50] 6 = 1"
    by (simp add: hit_sum_def sort_desc_indices_def slice_to_def take_argsort_wide_row
        in1d_def in1d_sort_path_eq np_sum_def)
  have h7: "hit_sum (sort_desc_indices [wide_row, wide_row]) [50, 50] 7 = 0"
    by (simp add: hit_sum_def sort_desc_indices_def slice_to_def take_argsort_wide_row
        in1d_def in1d_member_def np_sum_def)
  have swap: "[''@1'' \<mapsto> x, ''@-1'' \<mapsto> y] = [''@-1'' \<mapsto> y, ''@1'' \<mapsto> (x::int)]" for x y
    by (rule ext) simp
  have swap67: "[''@7'' \<mapsto> x, ''@6'' \<mapsto> y] = [''@6'' \<mapsto> y, ''@7'' \<mapsto> (x::int)]" for x y
    by (rule ext) simp
  have i1: "HitsCountPatch_init (Tensor2 [[2, 1 :: int]]) [0] [1, 1, 2] None
     = Inr \<lparr>name = None, at = [1, 1, 2], hits_count = [''@1'' \<mapsto> 2, ''@2'' \<mapsto> 1]\<rparr>"
    by (simp add: HitsCountPatch_init_def ids1 key_of_1 key_of_2 h1 zero_counts_def dict_iadd_def
        map_12_swap)
  have i2: "HitsCountPatch_init (Tensor2 [[3, 2, 1 :: int]]) [1] [- 1, 1] None
     = Inr \<lparr>name = None, at = [- 1, 1], hits_count = [''@-1'' \<mapsto> 1, ''@1'' \<mapsto> 0]\<rparr>"
    by (simp add: HitsCountPatch_init_def ids2 key_of_1 key_of_minus_1 h2 zero_counts_def dict_iadd_def
        swap)
  have i3: "HitsCountPatch_init (Tensor2 [wide_row, wide_row]) [50, 50] [6, 7] None
     = Inr \<lparr>name = None, at = [6, 7], hits_count = [''@6'' \<mapsto> 1, ''@7'' \<mapsto> 0]\<rparr>"
    by (simp add: HitsCountPatch_init_def key_of_6 key_of_7 h6 h7 zero_counts_def dict_iadd_def
        swap67)
  have n1: "\<not> counts_monotone \<lparr>name = None, at = [1, 1, 2], hits_count = [''@1'' \<mapsto> 2, ''@2'' \<mapsto> 1]\<rparr>"
    by (simp add: counts_monotone_def key_of_1 key_of_2)
  have n2: "\<not> counts_monotone \<lparr>name = None, at = [- 1, 1], hits_count = [''@-1'' \<mapsto> 1, ''@1'' \<mapsto> 0]\<rparr>"
    by (simp add: counts_monotone_def key_of_1 key_of_minus_1)
  have n3: "\<not> counts_monotone \<lparr>name = None, at = [6, 7], hits_count = [''@6'' \<mapsto> 1, ''@7'' \<mapsto> 0]\<rparr>"
    by (simp add: counts_monotone_def key_of_6 key_of_7)
  from i1 n1 i2 n2 i3 n3 show ?thesis by (simp only: simp_thms)
qed

text \<open>
  C10, amended: construction from a two-dimensional predictions tensor always yields a
  mapping whose key set is the set of labels of the cutoffs in \<^verbatim>\<open>at\<close> and whose counts
  are non-negative. The counts do not decrease with the cutoff either when the cutoffs
  in \<^verbatim>\<open>at\<close> are pairwise distinct and non-negative and, in addition, the targets are
  pairwise distinct or no row has more than \<open>6 \<cdot> len(targets) + 1\<close> columns, so that
  \<^verbatim>\<open>np.in1d\<close> tests plain membership. \<^verbatim>\<open>add\<close> with a peer of the same cutoff set
  preserves the three properties together.
\<close>

theorem init_and_add_invariant:
  "(\<exists>p. HitsCountPatch_init (Tensor2 rows) targets ats nm = Inr p \<and> keys_ok p \<and> counts_nonneg p
        \<and> (distinct ats \<and> (\<forall>n\<in>set ats. 0 \<le> n)
             \<and> (distinct targets
                  \<or> (\<forall>row\<in>set rows. int (length row) \<le> 6 * int (length targets) + 1))
            \<longrightarrow> patch_inv p))
   \<and> (patch_inv A \<and> patch_inv B \<and> set (at B) = set (at A)
        \<longrightarrow> (\<exists>R. add A (Patch B) = Inr R \<and> patch_inv R))"
proof -
  obtain p where p: "HitsCountPatch_init (Tensor2 rows) targets ats nm = Inr p"
    by (simp add: init_result)
  have k: "keys_ok p" using init_keys[OF p] by simp
  have n: "counts_nonneg p" by (rule init_nonneg[OF p])
  have m: "distinct ats \<and> (\<forall>n\<in>set ats. 0 \<le> n)
             \<and> (distinct targets
                  \<or> (\<forall>row\<in>set rows. int (length row) \<le> 6 * int (length targets) + 1))
            \<longrightarrow> patch_inv p"
    using init_monotone[OF p] k n by (simp add: patch_inv_def)
  have a: "patch_inv A \<and> patch_inv B \<and> set (at B) = set (at A)
        \<longrightarrow> (\<exists>R. add A (Patch B) = Inr R \<and> patch_inv R)"
    using add_preserves_inv[of A B] by (simp add: add_Patch del: sum_dicts.simps)
  from p k n m a show ?thesis by blast
qed

theorem init_and_add_invariant_witness:
  "(\<exists>p. HitsCountPatch_init (Tensor2 [[2, 1 :: int], [1, 2]]) [0, 0] [1, 2] None = Inr p \<and> patch_inv p)
   \<and> (\<exists>R. add \<lparr>name = None, at = [1, 2], hits_count = [''@1'' \<mapsto> 2, ''@2'' \<mapsto> 3]\<rparr>
              (Patch \<lparr>name = None, at = [1, 2], hits_count = [''@1'' \<mapsto> 0, ''@2'' \<mapsto> 1]\<rparr>) = Inr R
          \<and> patch_inv R)"
proof -
  have inv: "x \<le> y \<Longrightarrow> 0 \<le> x \<Longrightarrow>
      patch_inv \<lparr>name = None, at = [1, 2], hits_count = [''@1'' \<mapsto> x, ''@2'' \<mapsto> y]\<rparr>" for x y
    by (auto simp: patch_inv_def keys_ok_def counts_nonneg_def counts_monotone_def key_of_1 key_of_2
        split: if_splits)
  have d: "distinct [1, 2 :: int] \<and> (\<forall>n\<in>set [1, 2 :: int]. 0 \<le> n)
           \<and> (distinct [0, 0 :: int]
                \<or> (\<forall>row\<in>set [[2, 1 :: int], [1, 2]]. int (length row) \<le> 6 * int (length [0, 0 :: int]) + 1))"
    by simp
  show ?thesis
    using init_and_add_invariant[of "[[2, 1 :: int], [1, 2]]" "[0, 0]" "[1, 2]" None
        "\<lparr>name = None, at = [1, 2], hits_count = [''@1'' \<mapsto> 2, ''@2'' \<mapsto> 3]\<rparr>"
        "\<lparr>name = None, at = [1, 2], hits_count = [''@1'' \<mapsto> 0, ''@2'' \<mapsto> 1]\<rparr>"]
      d inv[of 2 3] inv[of 0 1]
    by auto
qed

end
